theory Spec2Isabelle
  imports Main "HOL-Library.Sublist"
begin

section \<open>Python strings\<close>

text \<open>
  A Python \<open>str\<close> is a sequence of Unicode code points; \<open>len\<close>, slicing and
  \<open>str.isspace\<close> count and classify code points, not bytes.  A string is therefore
  modelled as a list of code points, and a source literal is written \<open>lit ''...''\<close>.
\<close>

type_synonym pystr = "nat list"

definition lit :: "string \<Rightarrow> pystr" where
  "lit s = map of_char s"

text \<open>The code points for which \<open>str.isspace\<close> holds (the table of CPython's
  \<open>_PyUnicode_IsWhitespace\<close>); \<open>strip\<close> and \<open>lstrip\<close> without argument remove these.\<close>

definition isspace :: "nat \<Rightarrow> bool" where
  "isspace c \<longleftrightarrow>
     (9 \<le> c \<and> c \<le> 13) \<or> (28 \<le> c \<and> c \<le> 32) \<or> c = 133 \<or> c = 160 \<or> c = 5760 \<or>
     (8192 \<le> c \<and> c \<le> 8202) \<or> c = 8232 \<or> c = 8233 \<or> c = 8239 \<or> c = 8287 \<or> c = 12288"

definition lstrip :: "pystr \<Rightarrow> pystr" where
  "lstrip s = dropWhile isspace s"

definition rstrip :: "pystr \<Rightarrow> pystr" where
  "rstrip s = rev (dropWhile isspace (rev s))"

definition strip :: "pystr \<Rightarrow> pystr" where
  "strip s = rstrip (lstrip s)"

text \<open>\<open>s.startswith(p)\<close>.\<close>

definition startswith :: "pystr \<Rightarrow> pystr \<Rightarrow> bool" where
  "startswith s p = prefix p s"

text \<open>\<open>p in s\<close> for strings: \<open>p\<close> occurs in \<open>s\<close> as a contiguous run.\<close>

fun py_in :: "pystr \<Rightarrow> pystr \<Rightarrow> bool" where
  "py_in p [] = (p = [])"
| "py_in p (c # cs) = (prefix p (c # cs) \<or> py_in p cs)"

text \<open>\<open>s.split(p, 1)[1]\<close> for a non-empty \<open>p\<close> that occurs in \<open>s\<close>: the text after the
  first occurrence of \<open>p\<close>.\<close>

fun after_first :: "pystr \<Rightarrow> pystr \<Rightarrow> pystr" where
  "after_first p [] = []"
| "after_first p (c # cs) = (if prefix p (c # cs) then drop (length p) (c # cs) else after_first p cs)"

text \<open>\<open>s.split('\n')\<close>: always at least one piece.\<close>

fun split_nl :: "pystr \<Rightarrow> pystr list" where
  "split_nl [] = [[]]"
| "split_nl (c # cs) =
     (if c = 10 then [] # split_nl cs
      else (case split_nl cs of [] \<Rightarrow> [[c]] | l # ls \<Rightarrow> (c # l) # ls))"

text \<open>\<open>'\n'.join(xs)\<close>.\<close>

fun join_nl :: "pystr list \<Rightarrow> pystr" where
  "join_nl [] = []"
| "join_nl [x] = x"
| "join_nl (x # y # ys) = x @ 10 # join_nl (y # ys)"

text \<open>\<open>str(n)\<close> for a non-negative integer, as an f-string renders it.\<close>

fun str_nat :: "nat \<Rightarrow> pystr" where
  "str_nat n = (if n < 10 then [48 + n] else str_nat (n div 10) @ [48 + n mod 10])"

declare str_nat.simps [simp del]

section \<open>The response validator\<close>

text \<open>\<open>validate_response_format\<close> of \<open>test_validation.py\<close>; the copies in
  \<open>demonstrate_fixes.py\<close>, \<open>test_format_enforcement.py\<close>, \<open>test_end_to_end.py\<close> and
  \<open>generate_test_examples.py\<close> have the same body.\<close>

definition preamble_entry :: "nat \<Rightarrow> pystr \<Rightarrow> pystr" where
  "preamble_entry i line = lit ''  Line '' @ str_nat (i + 1) @ lit '': '' @ take 80 line"

text \<open>The \<open>for i, line in enumerate(lines)\<close> loop: the result is \<open>design_line_num\<close> and
  \<open>preamble_lines\<close> when the loop ends, by \<open>break\<close> or by exhaustion.\<close>

fun scan_lines :: "nat \<Rightarrow> pystr list \<Rightarrow> pystr list \<Rightarrow> nat option \<times> pystr list" where
  "scan_lines i [] preamble_lines = (None, preamble_lines)"
| "scan_lines i (line # rest) preamble_lines =
     (if startswith (strip line) (lit ''## Design'') then (Some i, preamble_lines)
      else scan_lines (i + 1) rest
             (if strip line \<noteq> [] then preamble_lines @ [preamble_entry i line]
              else preamble_lines))"

definition missing_header_message :: "pystr \<Rightarrow> pystr" where
  "missing_header_message agent_name =
     agent_name @ lit '' response missing '## Design' section header.''"

definition preamble_message :: "pystr \<Rightarrow> nat \<Rightarrow> pystr \<Rightarrow> pystr" where
  "preamble_message agent_name design_line_num preamble =
     agent_name @ lit '' violated format requirements.\<newline>\<newline>Forbidden preamble detected before '## Design' (found at line ''
       @ str_nat (design_line_num + 1) @ lit ''):\<newline>'' @ preamble
       @ lit ''\<newline>\<newline>The response will be automatically cleaned.''"

definition validate_response_format :: "pystr \<Rightarrow> pystr \<Rightarrow> bool \<times> pystr" where
  "validate_response_format response agent_name =
     (let stripped = lstrip response in
      if \<not> startswith stripped (lit ''## Design'') then
        (let lines = split_nl response in
         case scan_lines 0 lines [] of
           (Some design_line_num, preamble_lines) \<Rightarrow>
             (False, preamble_message agent_name design_line_num (join_nl (take 5 preamble_lines)))
         | (None, preamble_lines) \<Rightarrow> (False, missing_header_message agent_name))
      else (True, []))"

section \<open>The design extractor\<close>

subsection \<open>The variant of \<open>demonstrate_fixes.py\<close>\<close>

definition design_start_patterns :: "pystr list" where
  "design_start_patterns =
     [lit ''## Design\<newline>'', lit ''### Design\<newline>'',
      lit ''## Design'' @ [13, 10], lit ''### Design'' @ [13, 10]]"

text \<open>The \<open>for pattern in design_start_patterns\<close> loop: the first pattern that occurs
  replaces the response by the pattern followed by the text after its first occurrence.\<close>

fun cut_at_pattern :: "pystr list \<Rightarrow> pystr \<Rightarrow> pystr" where
  "cut_at_pattern [] response = response"
| "cut_at_pattern (pattern # patterns) response =
     (if py_in pattern response then pattern @ after_first pattern response
      else cut_at_pattern patterns response)"

definition meta_sections :: "pystr list" where
  "meta_sections =
     [lit ''Rationale'', lit ''What I Changed'', lit ''What I Kept'', lit ''What I Incorporated'',
      lit ''Open Questions'', lit ''Convergence'', lit ''Prompt for'', lit ''Remaining'',
      lit ''What I Improved'', lit ''PROMPT_FOR'']"

definition is_design_line :: "pystr \<Rightarrow> bool" where
  "is_design_line line \<longleftrightarrow>
     startswith (strip line) (lit ''### Design'') \<or> startswith (strip line) (lit ''## Design'')"

definition is_heading_line :: "pystr \<Rightarrow> bool" where
  "is_heading_line line \<longleftrightarrow>
     startswith (strip line) (lit ''### '') \<or> startswith (strip line) (lit ''## '')"

definition has_meta :: "pystr \<Rightarrow> bool" where
  "has_meta line \<longleftrightarrow> list_ex (\<lambda>meta. py_in meta line) meta_sections"

text \<open>The \<open>for line in lines\<close> loop, with the state \<open>in_design\<close> and \<open>design_lines\<close>;
  \<open>break\<close> returns the lines collected so far.\<close>

fun collect_design :: "pystr list \<Rightarrow> bool \<Rightarrow> pystr list \<Rightarrow> pystr list" where
  "collect_design [] in_design design_lines = design_lines"
| "collect_design (line # rest) in_design design_lines =
     (if is_design_line line then collect_design rest True (design_lines @ [line])
      else if in_design \<and> is_heading_line line then
        (if has_meta line then design_lines
         else collect_design rest in_design (design_lines @ [line]))
      else if in_design then collect_design rest in_design (design_lines @ [line])
      else collect_design rest in_design design_lines)"

definition extract_design_section :: "pystr \<Rightarrow> pystr" where
  "extract_design_section response0 =
     (let response = cut_at_pattern design_start_patterns response0;
          lines = split_nl response;
          design_lines = collect_design lines False [];
          design = strip (join_nl design_lines)
      in if design \<noteq> [] then design else response)"

subsection \<open>The variant of \<open>test_format_enforcement.py\<close>\<close>

text \<open>Also in \<open>test_end_to_end.py\<close> and \<open>generate_test_examples.py\<close>.  The loop finds
  the index of the first line that, trimmed, starts with the header.\<close>

fun find_design_start :: "nat \<Rightarrow> pystr list \<Rightarrow> nat option" where
  "find_design_start i [] = None"
| "find_design_start i (line # rest) =
     (if startswith (strip line) (lit ''## Design'') then Some i
      else find_design_start (i + 1) rest)"

definition extract_design_section_simple :: "pystr \<Rightarrow> pystr" where
  "extract_design_section_simple response =
     (let lines = split_nl response in
      case find_design_start 0 lines of
        Some design_start \<Rightarrow> join_nl (drop design_start lines)
      | None \<Rightarrow> response)"

subsection \<open>The extraction as a block of lines\<close>



text \<open>What the loop does: a line that is itself a Design heading line never ends the
  block, because the loop tests for the Design heading first.\<close>

definition ends_block :: "pystr \<Rightarrow> bool" where
  "ends_block line \<longleftrightarrow> \<not> is_design_line line \<and> is_heading_line line \<and> has_meta line"

definition design_block :: "pystr list \<Rightarrow> pystr list" where
  "design_block lines =
     (case dropWhile (\<lambda>l. \<not> is_design_line l) lines of
        [] \<Rightarrow> []
      | h # t \<Rightarrow> h # takeWhile (\<lambda>l. \<not> ends_block l) t)"

section \<open>The convergence engine\<close>

text \<open>Modelled from the spec: the module \<open>debate\<close>, which declares \<open>AgentResponse\<close>,
  \<open>ConvergenceStatus\<close> and \<open>check_convergence\<close>, is not among the sources; only its tests
  in \<open>mock_test.py\<close> and \<open>test_debate.py\<close> are.  The data follow section 3 of the
  specification: the convergence signal is one of three enumerated tokens, the status one
  of three values, and a response has the four fields the tests construct it with.\<close>

datatype ConvergenceSignal = PROPOSING_FINAL | ACCEPTING_FINAL | ITERATING

datatype ConvergenceStatus = DEBATING | CONVERGING | CONSENSUS

record AgentResponse =
  content :: pystr
  prompt_for_other :: pystr
  convergence_signal :: ConvergenceSignal
  raw_response :: pystr

text \<open>Modelled from the spec: \<open>check_convergence\<close> of the missing module \<open>debate\<close>.  The
  definition follows the rows of the table of section 4.4, top to bottom.\<close>

definition check_convergence :: "AgentResponse \<Rightarrow> AgentResponse \<Rightarrow> ConvergenceStatus" where
  "check_convergence a b =
     (if convergence_signal a \<in> {PROPOSING_FINAL, ACCEPTING_FINAL}
         \<and> convergence_signal b \<in> {PROPOSING_FINAL, ACCEPTING_FINAL} then CONSENSUS
      else if convergence_signal a \<in> {PROPOSING_FINAL, ACCEPTING_FINAL}
         \<and> convergence_signal b = ITERATING then CONVERGING
      else if convergence_signal a = ITERATING
         \<and> convergence_signal b \<in> {PROPOSING_FINAL, ACCEPTING_FINAL} then CONVERGING
      else DEBATING)"

section \<open>Auxiliary notions\<close>

text \<open>The two patterns of \<open>design_start_patterns\<close> that can be the first to occur: each of
  the other two contains one of them.\<close>

definition pattern_lf :: pystr where
  "pattern_lf = lit ''## Design\<newline>''"

definition pattern_crlf :: pystr where
  "pattern_crlf = lit ''## Design'' @ [13, 10]"

text \<open>\<open>trim_of l' l\<close>: \<open>l'\<close> is \<open>l\<close> with some of its surrounding whitespace removed, as far
  as the loop of the extractor can tell.\<close>

definition trim_of :: "pystr \<Rightarrow> pystr \<Rightarrow> bool" where
  "trim_of l' l \<longleftrightarrow> strip l' = strip l \<and> sublist l' l"

section \<open>Splitting and joining lines\<close>

text \<open>Splitting at line feeds and joining with line feeds are inverse to each other; the
  lines of a split hold no line feed.  Occurrence as a contiguous run is the library's
  \<open>sublist\<close>.\<close>

lemma isspace_nl [simp]: "isspace 10" by (simp add: isspace_def)
lemma isspace_cr [simp]: "isspace 13" by (simp add: isspace_def)
lemma not_isspace_hash [simp]: "\<not> isspace 35" by (simp add: isspace_def)
lemma not_isspace_n [simp]: "\<not> isspace 110" by (simp add: isspace_def)

lemma header_lit: "lit ''## Design'' = [35, 35, 32, 68, 101, 115, 105, 103, 110]"
  by (simp add: lit_def)
lemma header3_lit: "lit ''### Design'' = [35, 35, 35, 32, 68, 101, 115, 105, 103, 110]"
  by (simp add: lit_def)

lemma split_nl_not_Nil [simp]: "split_nl s \<noteq> []"
  by (induction s) (auto split: list.splits)

lemma split_nl_Cons:
  "split_nl (c # cs) = (if c = 10 then [] # split_nl cs else (c # hd (split_nl cs)) # tl (split_nl cs))"
  by (cases "split_nl cs") auto

declare split_nl.simps(2) [simp del]

lemma join_nl_Cons: "ls \<noteq> [] \<Longrightarrow> join_nl (l # ls) = l @ 10 # join_nl ls"
  by (cases ls) auto

lemma join_split [simp]: "join_nl (split_nl s) = s"
proof (induction s)
  case Nil
  show ?case by simp
next
  case (Cons c cs)
  obtain l ls where sp: "split_nl cs = l # ls" by (cases "split_nl cs") auto
  show ?case
  proof (cases "c = 10")
    case True
    then show ?thesis using Cons by (simp add: join_nl_Cons split_nl_Cons)
  next
    case False
    then show ?thesis using Cons sp by (cases ls) (auto simp: split_nl_Cons)
  qed
qed

lemma split_nl_no_nl: "l \<in> set (split_nl s) \<Longrightarrow> 10 \<notin> set l"
proof (induction s arbitrary: l)
  case Nil
  then show ?case by simp
next
  case (Cons c cs)
  obtain h t where sp: "split_nl cs = h # t" by (cases "split_nl cs") auto
  show ?case using Cons sp by (auto simp: split_nl_Cons split: if_splits)
qed

lemma split_nl_plain: "10 \<notin> set s \<Longrightarrow> split_nl s = [s]"
  by (induction s) (auto simp: split_nl_Cons)

lemma split_nl_append_nl: "10 \<notin> set a \<Longrightarrow> split_nl (a @ 10 # b) = a # split_nl b"
  by (induction a) (auto simp: split_nl_Cons)


lemma py_in_sublist: "py_in p s \<longleftrightarrow> sublist p s"
  by (induction s) (auto simp: sublist_Cons_right)

lemma after_first_decomp:
  "py_in p s \<Longrightarrow> \<exists>pre. s = pre @ p @ after_first p s"
proof (induction s)
  case Nil
  then show ?case by simp
next
  case (Cons c cs)
  show ?case
  proof (cases "prefix p (c # cs)")
    case True
    then obtain t where t: "c # cs = p @ t" by (auto simp: prefix_def)
    have "after_first p (c # cs) = drop (length p) (c # cs)" using True by simp
    also have "\<dots> = t" using t by simp
    finally have "c # cs = [] @ p @ after_first p (c # cs)" using t by simp
    then show ?thesis by blast
  next
    case False
    then obtain pre where "cs = pre @ p @ after_first p cs" using Cons by auto
    then have "c # cs = (c # pre) @ p @ after_first p (c # cs)" using False by simp
    then show ?thesis by blast
  qed
qed

lemma after_first_prefix: "prefix p s \<Longrightarrow> p @ after_first p s = s"
  by (cases s) (auto simp: prefix_def)

section \<open>Stripping whitespace and the validator loop\<close>

text \<open>How \<open>rstrip\<close> and \<open>lstrip\<close> act on a concatenation, and the loop of the validator as
  \<open>takeWhile\<close>, \<open>filter\<close> and \<open>enumerate\<close> over the lines.\<close>

lemma lstrip_nonspace: "\<not> isspace c \<Longrightarrow> lstrip (c # cs) = c # cs"
  by (simp add: lstrip_def)

lemma rstrip_append:
  "rstrip (a @ b) = (if \<forall>c \<in> set b. isspace c then rstrip a else a @ rstrip b)"
  by (simp add: rstrip_def dropWhile_append)

lemma rstrip_keep: "s \<noteq> [] \<Longrightarrow> \<not> isspace (last s) \<Longrightarrow> rstrip s = s"
  by (cases s rule: rev_cases) (auto simp: rstrip_def)

lemma rstrip_append_keep:
  "a \<noteq> [] \<Longrightarrow> \<not> isspace (last a) \<Longrightarrow> rstrip (a @ b) = a @ rstrip b"
  by (simp add: rstrip_append rstrip_keep) (simp add: rstrip_def)

lemma rstrip_prefix: "prefix (rstrip s) s"
proof -
  have "rev s = takeWhile isspace (rev s) @ dropWhile isspace (rev s)" by simp
  then have "s = rev (dropWhile isspace (rev s)) @ rev (takeWhile isspace (rev s))"
    by (metis rev_append rev_rev_ident)
  then show ?thesis unfolding rstrip_def prefix_def by blast
qed

lemma startswith_strip_lstrip:
  assumes "p \<noteq> []" "\<not> isspace (last p)"
  shows "startswith (strip l) p \<longleftrightarrow> startswith (lstrip l) p"
proof
  assume "startswith (strip l) p"
  then show "startswith (lstrip l) p"
    unfolding startswith_def strip_def using rstrip_prefix prefix_order.trans by blast
next
  assume "startswith (lstrip l) p"
  then obtain t where "lstrip l = p @ t" by (auto simp: startswith_def prefix_def)
  then show "startswith (strip l) p"
    using assms by (simp add: strip_def startswith_def rstrip_append_keep)
qed

lemma header_nonempty: "lit ''## Design'' \<noteq> []" "\<not> isspace (last (lit ''## Design''))"
  "10 \<notin> set (lit ''## Design'')"
  by (simp_all add: header_lit)

lemma prefix_first_line:
  "10 \<notin> set p \<Longrightarrow> prefix p s \<Longrightarrow> prefix p (hd (split_nl s))"
proof (induction p arbitrary: s)
  case Nil
  then show ?case by simp
next
  case (Cons a p)
  then obtain t where s: "s = a # t" and pt: "prefix p t" by (cases s) auto
  from Cons have "prefix p (hd (split_nl t))" using pt by simp
  then show ?case using s Cons.prems by (simp add: split_nl_Cons)
qed

lemma lstrip_header_line:
  assumes "p \<noteq> []" "10 \<notin> set p" "startswith (lstrip s) p"
  shows "\<exists>l \<in> set (split_nl s). startswith (lstrip l) p"
  using assms(3)
proof (induction s)
  case Nil
  then show ?case using assms(1) by (simp add: lstrip_def startswith_def)
next
  case (Cons c cs)
  obtain h t where sp: "split_nl cs = h # t" by (cases "split_nl cs") auto
  show ?case
  proof (cases "isspace c")
    case True
    then have "startswith (lstrip cs) p" using Cons.prems by (simp add: lstrip_def)
    then obtain l where l: "l \<in> set (split_nl cs)" "startswith (lstrip l) p"
      using Cons.IH by blast
    show ?thesis
    proof (cases "c = 10")
      case True
      then show ?thesis using l by (auto simp: split_nl_Cons)
    next
      case False
      have "lstrip (c # h) = lstrip h" using \<open>isspace c\<close> by (simp add: lstrip_def)
      then show ?thesis using l sp False by (auto simp: split_nl_Cons)
    qed
  next
    case False
    then have pre: "prefix p (c # cs)" using Cons.prems by (simp add: lstrip_def startswith_def)
    then have "prefix p (hd (split_nl (c # cs)))" using assms(2) prefix_first_line by blast
    moreover obtain h' t' where sp': "split_nl (c # cs) = h' # t'"
      by (cases "split_nl (c # cs)") auto
    moreover have "hd h' = c \<and> h' \<noteq> []" using pre assms(1) calculation
      by (cases p; cases h') auto
    ultimately have "startswith (lstrip h') p" using False
      by (cases h') (auto simp: lstrip_def startswith_def)
    then show ?thesis using sp' by (metis list.set_intros(1))
  qed
qed

lemma scan_lines_spec:
  "scan_lines i ls acc =
     (let pre = takeWhile (\<lambda>l. \<not> startswith (strip l) (lit ''## Design'')) ls;
          entries = map (\<lambda>(j, l). preamble_entry j l) (filter (\<lambda>(j, l). strip l \<noteq> []) (enumerate i pre))
      in (if \<exists>l \<in> set ls. startswith (strip l) (lit ''## Design'') then Some (i + length pre) else None,
          acc @ entries))"
  by (induction ls arbitrary: i acc) (auto simp: Let_def)

section \<open>The validator\<close>

lemmas eval_defs = lit_def strip_def lstrip_def rstrip_def startswith_def isspace_def
  split_nl.simps str_nat.simps preamble_entry_def missing_header_message_def
  preamble_message_def validate_response_format_def

lemma validate_ok:
  "startswith (lstrip response) (lit ''## Design'') \<Longrightarrow>
   validate_response_format response agent_name = (True, [])"
  by (simp add: validate_response_format_def)

lemma validate_not_ok:
  "\<not> startswith (lstrip response) (lit ''## Design'') \<Longrightarrow>
   \<not> fst (validate_response_format response agent_name)"
  by (simp add: validate_response_format_def Let_def split: prod.splits option.splits)

lemma validate_missing:
  assumes "\<forall>l \<in> set (split_nl response). \<not> startswith (strip l) (lit ''## Design'')"
  shows "validate_response_format response agent_name = (False, missing_header_message agent_name)"
proof -
  have "\<forall>l \<in> set (split_nl response). \<not> startswith (lstrip l) (lit ''## Design'')"
    using assms startswith_strip_lstrip[OF header_nonempty(1,2)] by simp
  then have "\<not> startswith (lstrip response) (lit ''## Design'')"
    using lstrip_header_line[OF header_nonempty(1) header_nonempty(3)] by blast
  moreover have "fst (scan_lines 0 (split_nl response) []) = None"
    using assms by (simp add: scan_lines_spec Let_def)
  ultimately show ?thesis
    by (cases "scan_lines 0 (split_nl response) []")
       (simp add: validate_response_format_def Let_def)
qed

section \<open>The extractor loop and the pattern cut\<close>

text \<open>The loop of the extractor collects \<open>design_block\<close>.  Of the four patterns only two
  can be the first to occur.\<close>

lemma collect_design_in:
  "collect_design ls True acc = acc @ takeWhile (\<lambda>l. \<not> ends_block l) ls"
  by (induction ls arbitrary: acc) (auto simp: ends_block_def)

lemma collect_design_out:
  "collect_design ls False acc = acc @ design_block ls"
  by (induction ls arbitrary: acc) (auto simp: design_block_def collect_design_in)

lemma extract_design_section_unfold:
  "extract_design_section response =
     (let text = cut_at_pattern design_start_patterns response;
          design = strip (join_nl (design_block (split_nl text)))
      in if design \<noteq> [] then design else text)"
  by (simp add: extract_design_section_def collect_design_out Let_def)

lemma pattern_lf_val: "pattern_lf = [35, 35, 32, 68, 101, 115, 105, 103, 110, 10]" by (simp add: pattern_lf_def lit_def)
lemma pattern_crlf_val: "pattern_crlf = [35, 35, 32, 68, 101, 115, 105, 103, 110, 13, 10]" by (simp add: pattern_crlf_def lit_def)

lemma py_in_mono: "py_in p q \<Longrightarrow> py_in q s \<Longrightarrow> py_in p s"
  unfolding py_in_sublist by (rule sublist_order.order.trans)

lemma cut_at_pattern_cases:
  "cut_at_pattern design_start_patterns s =
     (if py_in pattern_lf s then pattern_lf @ after_first pattern_lf s
      else if py_in pattern_crlf s then pattern_crlf @ after_first pattern_crlf s else s)"
proof -
  have a: "py_in pattern_lf (lit ''### Design\<newline>'')" by (simp add: pattern_lf_val lit_def)
  have b: "py_in pattern_crlf (lit ''### Design'' @ [13, 10])" by (simp add: pattern_crlf_val lit_def)
  have "py_in (lit ''### Design\<newline>'') s \<Longrightarrow> py_in pattern_lf s" using a py_in_mono by blast
  moreover have "py_in (lit ''### Design'' @ [13, 10]) s \<Longrightarrow> py_in pattern_crlf s" using b py_in_mono by blast
  ultimately show ?thesis
    by (auto simp: design_start_patterns_def pattern_lf_def pattern_crlf_def)
qed

section \<open>Stripping and lines\<close>

text \<open>The lines of a trimmed text are the lines of the text, the first and the last trimmed
  and blank lines at the end dropped.\<close>

lemma lstrip_suffix: "suffix (lstrip s) s"
  unfolding lstrip_def by (rule suffix_dropWhile)

lemma lstrip_idem [simp]: "lstrip (lstrip s) = lstrip s"
  by (simp add: lstrip_def)

lemma lstrip_all_space: "\<forall>c \<in> set s. isspace c \<Longrightarrow> lstrip s = []"
  by (simp add: lstrip_def)

lemma rstrip_all_space: "\<forall>c \<in> set s. isspace c \<Longrightarrow> rstrip s = []"
  by (simp add: rstrip_def)

lemma rstrip_Nil_iff: "rstrip s = [] \<longleftrightarrow> (\<forall>c \<in> set s. isspace c)"
  by (auto simp: rstrip_def dropWhile_eq_Nil_conv)

lemma lstrip_Nil_iff: "lstrip s = [] \<longleftrightarrow> (\<forall>c \<in> set s. isspace c)"
  by (auto simp: lstrip_def dropWhile_eq_Nil_conv)

lemma lstrip_append_space: "\<forall>c \<in> set w. isspace c \<Longrightarrow> lstrip (w @ s) = lstrip s"
  by (simp add: lstrip_def dropWhile_append2)

lemma lstrip_append_keep: "\<exists>c \<in> set a. \<not> isspace c \<Longrightarrow> lstrip (a @ b) = lstrip a @ b"
  by (auto simp: lstrip_def dropWhile_append)

lemma lstrip_hd: "lstrip s \<noteq> [] \<Longrightarrow> \<not> isspace (hd (lstrip s))"
  unfolding lstrip_def by (rule hd_dropWhile)

lemma rstrip_last: "rstrip s \<noteq> [] \<Longrightarrow> \<not> isspace (last (rstrip s))"
  unfolding rstrip_def by (simp add: last_rev hd_dropWhile)

lemma rstrip_idem [simp]: "rstrip (rstrip s) = rstrip s"
  by (cases "rstrip s = []") (auto simp: rstrip_keep rstrip_last rstrip_all_space)

lemma rstrip_hd: "rstrip s \<noteq> [] \<Longrightarrow> hd (rstrip s) = hd s"
  using rstrip_prefix[of s] by (metis hd_append2 prefix_def)

lemma rstrip_append_nonspace:
  "\<not> (\<forall>c \<in> set b. isspace c) \<Longrightarrow> rstrip (a @ b) = a @ rstrip b"
  by (auto simp: rstrip_append)

lemma rstrip_append_space:
  "\<forall>c \<in> set b. isspace c \<Longrightarrow> rstrip (a @ b) = rstrip a"
  by (auto simp: rstrip_append)

lemma lstrip_rstrip: "lstrip (rstrip s) = rstrip (lstrip s)"
proof (cases "\<forall>c \<in> set s. isspace c")
  case True
  then show ?thesis by (simp add: lstrip_all_space rstrip_all_space)
next
  case False
  let ?w = "takeWhile isspace s" and ?m = "lstrip s"
  have s: "s = ?w @ ?m" by (simp add: lstrip_def)
  have m: "?m \<noteq> []" "\<not> (\<forall>c \<in> set ?m. isspace c)"
    using False by (auto simp: lstrip_Nil_iff) (metis lstrip_Nil_iff lstrip_idem)
  have w: "\<forall>c \<in> set ?w. isspace c" by (auto dest: set_takeWhileD)
  have rm: "rstrip ?m \<noteq> []" using m(2) by (simp add: rstrip_Nil_iff)
  have "rstrip s = ?w @ rstrip ?m"
    using rstrip_append_nonspace[OF m(2), of ?w] s by simp
  then have "lstrip (rstrip s) = lstrip (rstrip ?m)" using w by (simp add: lstrip_append_space)
  also have "\<dots> = rstrip ?m"
  proof -
    have "\<not> isspace (hd (rstrip ?m))" using rstrip_hd[OF rm] lstrip_hd[OF m(1)] by simp
    then show ?thesis using rm by (cases "rstrip ?m") (auto simp: lstrip_def)
  qed
  finally show ?thesis .
qed

lemma strip_idem [simp]: "strip (strip s) = strip s"
  by (simp add: strip_def lstrip_rstrip)

lemma strip_lstrip [simp]: "strip (lstrip s) = strip s"
  by (simp add: strip_def)

lemma strip_rstrip [simp]: "strip (rstrip s) = strip s"
  by (simp add: strip_def lstrip_rstrip)

lemma strip_sublist: "sublist (strip s) s"
proof -
  have "sublist (rstrip (lstrip s)) (lstrip s)" using rstrip_prefix by blast
  moreover have "sublist (lstrip s) s" using lstrip_suffix by blast
  ultimately show ?thesis unfolding strip_def by (rule sublist_order.order.trans)
qed

lemma strip_Nil_iff: "strip s = [] \<longleftrightarrow> (\<forall>c \<in> set s. isspace c)"
proof
  assume "strip s = []"
  then have "\<forall>c \<in> set (lstrip s). isspace c" by (simp add: strip_def rstrip_Nil_iff)
  then have "lstrip s = []" by (metis lstrip_Nil_iff lstrip_idem)
  then show "\<forall>c \<in> set s. isspace c" by (simp add: lstrip_Nil_iff)
next
  assume "\<forall>c \<in> set s. isspace c"
  then show "strip s = []" by (simp add: strip_def lstrip_all_space rstrip_def)
qed

lemma trim_of_refl [simp]: "trim_of l l"
  by (simp add: trim_of_def)

lemma trim_of_rstrip [simp]: "trim_of (rstrip l) l"
  using rstrip_prefix by (auto simp: trim_of_def)

lemma trim_of_lstrip [simp]: "trim_of (lstrip l) l"
  using lstrip_suffix by (auto simp: trim_of_def)

lemma trim_of_trans: "trim_of a b \<Longrightarrow> trim_of b c \<Longrightarrow> trim_of a c"
  unfolding trim_of_def using sublist_order.order.trans by auto

lemma is_design_line_trim: "trim_of l' l \<Longrightarrow> is_design_line l' = is_design_line l"
  by (simp add: trim_of_def is_design_line_def)

lemma has_meta_mono: "sublist l' l \<Longrightarrow> has_meta l' \<Longrightarrow> has_meta l"
  unfolding has_meta_def list_ex_iff py_in_sublist
  using sublist_order.order.trans by blast

lemma ends_block_trim: "trim_of l' l \<Longrightarrow> ends_block l' \<Longrightarrow> ends_block l"
  by (auto simp: trim_of_def ends_block_def is_design_line_def is_heading_line_def
           intro: has_meta_mono)

lemma all_space_join:
  "(\<forall>c \<in> set (join_nl L). isspace c) \<longleftrightarrow> (\<forall>l \<in> set L. \<forall>c \<in> set l. isspace c)"
  by (induction L rule: join_nl.induct) auto

lemma no_nl_rstrip: "10 \<notin> set l \<Longrightarrow> 10 \<notin> set (rstrip l)"
  using rstrip_prefix[of l] set_mono_prefix by blast

lemma rstrip_Cons_nl: "\<not> (\<forall>c \<in> set s. isspace c) \<Longrightarrow> rstrip (10 # s) = 10 # rstrip s"
  using rstrip_append_nonspace[of s "[10]"] by simp

lemma split_rstrip_join:
  assumes "\<forall>l \<in> set L. 10 \<notin> set l" "\<not> (\<forall>c \<in> set (join_nl L). isspace c)"
  shows "list_all2 trim_of (split_nl (rstrip (join_nl L)))
           (take (length (split_nl (rstrip (join_nl L)))) L)"
  using assms
proof (induction L rule: join_nl.induct)
  case 1
  then show ?case by simp
next
  case (2 x)
  then show ?case by (simp add: split_nl_plain no_nl_rstrip)
next
  case (3 x y ys)
  let ?J = "join_nl (y # ys)"
  show ?case
  proof (cases "\<forall>c \<in> set ?J. isspace c")
    case True
    then have "rstrip (join_nl (x # y # ys)) = rstrip x"
      using rstrip_append_space[of "10 # ?J" x] by simp
    then show ?thesis using 3 by (simp add: split_nl_plain no_nl_rstrip)
  next
    case False
    then have "rstrip (join_nl (x # y # ys)) = x @ 10 # rstrip ?J"
      using rstrip_append_nonspace[of "10 # ?J" x] by (simp add: rstrip_Cons_nl)
    moreover have "10 \<notin> set x" using 3 by simp
    ultimately have sp: "split_nl (rstrip (join_nl (x # y # ys))) = x # split_nl (rstrip ?J)"
      by (simp add: split_nl_append_nl)
    have "list_all2 trim_of (split_nl (rstrip ?J)) (take (length (split_nl (rstrip ?J))) (y # ys))"
      using 3 False by simp
    then show ?thesis unfolding sp by simp
  qed
qed

lemma lstrip_join:
  "\<exists>c \<in> set h. \<not> isspace c \<Longrightarrow> lstrip (join_nl (h # T)) = join_nl (lstrip h # T)"
  by (cases T) (auto simp: lstrip_append_keep)

lemma no_nl_lstrip: "10 \<notin> set l \<Longrightarrow> 10 \<notin> set (lstrip l)"
  using lstrip_suffix[of l] set_mono_suffix by blast

lemma split_strip_join:
  assumes "\<forall>l \<in> set (h # T). 10 \<notin> set l" "\<exists>c \<in> set h. \<not> isspace c"
  shows "list_all2 trim_of (split_nl (strip (join_nl (h # T))))
           (take (length (split_nl (strip (join_nl (h # T))))) (h # T))"
proof -
  let ?D = "split_nl (strip (join_nl (h # T)))"
  have st: "strip (join_nl (h # T)) = rstrip (join_nl (lstrip h # T))"
    using assms(2) by (simp add: strip_def lstrip_join)
  have nn: "\<forall>l \<in> set (lstrip h # T). 10 \<notin> set l" using assms(1) by (simp add: no_nl_lstrip)
  have "\<not> (\<forall>c \<in> set (lstrip h). isspace c)"
    using assms(2) by (metis lstrip_Nil_iff lstrip_idem)
  then have ns: "\<not> (\<forall>c \<in> set (join_nl (lstrip h # T)). isspace c)"
    unfolding all_space_join by simp
  have a: "list_all2 trim_of ?D (take (length ?D) (lstrip h # T))"
    unfolding st using split_rstrip_join[OF nn ns] .
  have b: "list_all2 trim_of (take (length ?D) (lstrip h # T)) (take (length ?D) (h # T))"
    by (cases "length ?D") (simp_all add: list_all2_same)
  from a b show ?thesis
    by (rule list_all2_trans[rotated 1]) (rule trim_of_trans)
qed

section \<open>The design block\<close>

text \<open>A non-empty block starts at a Design heading line, holds no line that ends a block
  after it, and is a contiguous part of the text.  Extracting a trimmed block that the
  pattern cut leaves alone gives the same block.\<close>

lemma design_block_Nil_iff: "design_block ls = [] \<longleftrightarrow> (\<forall>l \<in> set ls. \<not> is_design_line l)"
  by (induction ls) (auto simp: design_block_def)

lemma design_block_Cons_design:
  "is_design_line h \<Longrightarrow> design_block (h # ls) = h # takeWhile (\<lambda>l. \<not> ends_block l) ls"
  by (simp add: design_block_def)

lemma design_block_decomp:
  assumes "design_block ls \<noteq> []"
  obtains A h T C where "ls = A @ (h # T) @ C" "design_block ls = h # T" "is_design_line h"
    "\<forall>l \<in> set A. \<not> is_design_line l" "\<forall>l \<in> set T. \<not> ends_block l"
proof -
  let ?P = "\<lambda>l. \<not> is_design_line l" and ?Q = "\<lambda>l. \<not> ends_block l"
  from assms obtain h t where d: "dropWhile ?P ls = h # t"
    by (auto simp: design_block_def split: list.splits)
  have h: "is_design_line h" using hd_dropWhile[of ?P ls] d by simp
  have "ls = takeWhile ?P ls @ (h # takeWhile ?Q t) @ dropWhile ?Q t"
    using takeWhile_dropWhile_id[of ?P ls] d by simp
  moreover have "design_block ls = h # takeWhile ?Q t" using d by (simp add: design_block_def)
  moreover have "\<forall>l \<in> set (takeWhile ?P ls). \<not> is_design_line l" by (auto dest: set_takeWhileD)
  moreover have "\<forall>l \<in> set (takeWhile ?Q t). \<not> ends_block l" by (auto dest: set_takeWhileD)
  ultimately show thesis using that h by blast
qed

lemma join_nl_append:
  "A \<noteq> [] \<Longrightarrow> B \<noteq> [] \<Longrightarrow> join_nl (A @ B) = join_nl A @ 10 # join_nl B"
  by (induction A rule: join_nl.induct) (auto simp: join_nl_Cons)

lemma join_segment_sublist:
  assumes "B \<noteq> []"
  shows "sublist (join_nl B) (join_nl (A @ B @ C))"
proof -
  have bc: "sublist (join_nl B) (join_nl (B @ C))"
    using assms by (cases "C = []") (auto simp: join_nl_append)
  show ?thesis
  proof (cases "A = []")
    case True
    then show ?thesis using bc by simp
  next
    case False
    then have "join_nl (A @ B @ C) = (join_nl A @ [10]) @ join_nl (B @ C)"
      using assms by (simp add: join_nl_append)
    then have "sublist (join_nl (B @ C)) (join_nl (A @ B @ C))"
      by (metis sublist_append_leftI)
    with bc show ?thesis by (rule sublist_order.order.trans)
  qed
qed

lemma design_block_sublist:
  assumes "design_block (split_nl r) \<noteq> []"
  shows "sublist (strip (join_nl (design_block (split_nl r)))) r"
proof -
  from assms obtain A h T C where
    "split_nl r = A @ (h # T) @ C" "design_block (split_nl r) = h # T"
    by (rule design_block_decomp)
  then have "sublist (join_nl (design_block (split_nl r))) (join_nl (split_nl r))"
    using join_segment_sublist[of "h # T" A C] by simp
  then have "sublist (join_nl (design_block (split_nl r))) r" by simp
  with strip_sublist show ?thesis by (rule sublist_order.order.trans)
qed

lemma design_line_nonspace: "is_design_line h \<Longrightarrow> \<exists>c \<in> set h. \<not> isspace c"
proof (rule ccontr)
  assume d: "is_design_line h" and "\<not> (\<exists>c \<in> set h. \<not> isspace c)"
  then have "strip h = []" by (simp add: strip_Nil_iff)
  with d show False by (simp add: is_design_line_def startswith_def lit_def)
qed

lemma design_block_id:
  "is_design_line x \<Longrightarrow> \<forall>l \<in> set xs. \<not> ends_block l \<Longrightarrow> design_block (x # xs) = x # xs"
  by (simp add: design_block_Cons_design takeWhile_eq_all_conv)

lemma extract_fixed:
  assumes h: "is_design_line h" and T: "\<forall>l \<in> set T. \<not> ends_block l"
    and nl: "\<forall>l \<in> set (h # T). 10 \<notin> set l"
    and cut: "cut_at_pattern design_start_patterns (strip (join_nl (h # T))) = strip (join_nl (h # T))"
  shows "extract_design_section (strip (join_nl (h # T))) = strip (join_nl (h # T))"
proof -
  let ?d = "strip (join_nl (h # T))"
  let ?D = "split_nl ?d"
  have rel: "list_all2 trim_of ?D (take (length ?D) (h # T))"
    using split_strip_join[OF nl design_line_nonspace[OF h]] .
  obtain x xs where D: "?D = x # xs" by (cases ?D) auto
  have tk: "take (length ?D) (h # T) = h # take (length xs) T" unfolding D by simp
  from rel have xh: "trim_of x h" and rest: "list_all2 trim_of xs (take (length xs) T)"
    unfolding tk D by simp_all
  have dx: "is_design_line x" using xh h by (simp add: is_design_line_trim)
  have "\<forall>l \<in> set xs. \<not> ends_block l"
  proof
    fix l assume "l \<in> set xs"
    then obtain l' where "l' \<in> set (take (length xs) T)" "trim_of l l'"
      using rest by (metis in_set_conv_nth list_all2_conv_all_nth)
    then show "\<not> ends_block l" using T ends_block_trim by (meson in_set_takeD)
  qed
  then have "design_block ?D = ?D" unfolding D using dx by (rule design_block_id[rotated])
  moreover have "?d \<noteq> []"
    using design_line_nonspace[OF h] by (auto simp: strip_Nil_iff all_space_join)
  ultimately show ?thesis
    unfolding extract_design_section_unfold[of ?d] cut by (simp add: Let_def)
qed

section \<open>The shape of an extraction\<close>

text \<open>After the pattern cut the first line is \<open>## Design\<close>, possibly with a carriage
  return, and the trimmed block begins with the pattern again or is the header alone: the
  cut leaves it alone.\<close>

lemma pattern_lf_header: "pattern_lf = lit ''## Design'' @ [10]" by (simp add: pattern_lf_def lit_def)
lemma pattern_crlf_header: "pattern_crlf = (lit ''## Design'' @ [13]) @ [10]" by (simp add: pattern_crlf_def)

lemma is_design_header: "is_design_line (lit ''## Design'')"
  by (simp add: is_design_line_def eval_defs)

lemma is_design_header_cr: "is_design_line (lit ''## Design'' @ [13])"
  by (simp add: is_design_line_def eval_defs)

lemma split_cut_lf: "split_nl (pattern_lf @ rest) = lit ''## Design'' # split_nl rest"
  unfolding pattern_lf_header using split_nl_append_nl[of "lit ''## Design''" rest]
  by (simp add: header_lit)

lemma split_cut_crlf: "split_nl (pattern_crlf @ rest) = (lit ''## Design'' @ [13]) # split_nl rest"
  unfolding pattern_crlf_header using split_nl_append_nl[of "lit ''## Design'' @ [13]" rest]
  by (simp add: header_lit)

lemma prefix_of_nl: "prefix p (10 # Y) \<Longrightarrow> p \<noteq> [] \<Longrightarrow> \<exists>Z. p = 10 # Z"
  by (cases p) auto

lemma rstrip_nl_cases: "rstrip (10 # Y) = [] \<or> (\<exists>Z. rstrip (10 # Y) = 10 # Z)"
  using prefix_of_nl[OF rstrip_prefix[of "10 # Y"]] by blast

lemma strip_join_header:
  "strip (join_nl (lit ''## Design'' # T)) = lit ''## Design''
   \<or> (\<exists>Z. strip (join_nl (lit ''## Design'' # T)) = pattern_lf @ Z)"
proof -
  let ?H = "lit ''## Design''"
  obtain X where X: "join_nl (?H # T) = ?H @ X" "X = [] \<or> (\<exists>Y. X = 10 # Y)"
    by (cases T) (auto simp: join_nl_Cons)
  have "lstrip (?H @ X) = ?H @ X" by (simp add: header_lit lstrip_nonspace)
  then have st: "strip (join_nl (?H # T)) = ?H @ rstrip X"
    unfolding X(1) strip_def using rstrip_append_keep[of ?H X] by (simp add: header_lit)
  have "rstrip X = [] \<or> (\<exists>Z. rstrip X = 10 # Z)"
  proof (cases "X = []")
    case True
    then show ?thesis by (simp add: rstrip_def)
  next
    case False
    then obtain Y where "X = 10 # Y" using X(2) by auto
    then show ?thesis using rstrip_nl_cases[of Y] by simp
  qed
  then show ?thesis unfolding st pattern_lf_header by auto
qed

lemma strip_join_header_cr:
  "strip (join_nl ((lit ''## Design'' @ [13]) # T)) = lit ''## Design''
   \<or> (\<exists>Z. strip (join_nl ((lit ''## Design'' @ [13]) # T)) = pattern_crlf @ Z)"
proof -
  let ?H = "lit ''## Design''"
  obtain X where X: "join_nl ((?H @ [13]) # T) = ?H @ 13 # X" "X = [] \<or> (\<exists>Y. X = 10 # Y)"
    by (cases T) (auto simp: join_nl_Cons)
  have "lstrip (?H @ 13 # X) = ?H @ 13 # X" by (simp add: header_lit lstrip_nonspace)
  then have st: "strip (join_nl ((?H @ [13]) # T)) = ?H @ rstrip (13 # X)"
    unfolding X(1) strip_def using rstrip_append_keep[of ?H "13 # X"] by (simp add: header_lit)
  show ?thesis
  proof (cases "\<forall>c \<in> set X. isspace c")
    case True
    then have "rstrip (13 # X) = []" by (simp add: rstrip_Nil_iff)
    then show ?thesis unfolding st by simp
  next
    case False
    then have r: "rstrip (13 # X) = 13 # rstrip X" "rstrip X \<noteq> []"
      using rstrip_append_nonspace[of X "[13]"] by (auto simp: rstrip_Nil_iff)
    from False X(2) obtain Y where "X = 10 # Y" by auto
    then obtain Z where "rstrip X = 10 # Z" using rstrip_nl_cases[of Y] r(2) by auto
    then show ?thesis unfolding st r(1) pattern_crlf_header by simp
  qed
qed

lemma cut_header: "cut_at_pattern design_start_patterns (lit ''## Design'') = lit ''## Design''"
  by (simp add: cut_at_pattern_cases pattern_lf_val pattern_crlf_val header_lit)

lemma cut_pattern_lf_prefix: "cut_at_pattern design_start_patterns (pattern_lf @ Z) = pattern_lf @ Z"
proof -
  have "py_in pattern_lf (pattern_lf @ Z)" by (simp add: py_in_sublist)
  moreover have "pattern_lf @ after_first pattern_lf (pattern_lf @ Z) = pattern_lf @ Z" by (rule after_first_prefix) simp
  ultimately show ?thesis by (simp add: cut_at_pattern_cases)
qed

lemma cut_pattern_crlf_prefix:
  assumes "\<not> py_in pattern_lf (pattern_crlf @ Z)"
  shows "cut_at_pattern design_start_patterns (pattern_crlf @ Z) = pattern_crlf @ Z"
proof -
  have "py_in pattern_crlf (pattern_crlf @ Z)" by (simp add: py_in_sublist)
  moreover have "pattern_crlf @ after_first pattern_crlf (pattern_crlf @ Z) = pattern_crlf @ Z" by (rule after_first_prefix) simp
  ultimately show ?thesis using assms by (simp add: cut_at_pattern_cases)
qed

lemma py_in_lf_crlf: "py_in pattern_lf (pattern_crlf @ rest) = py_in pattern_lf rest"
  by (simp add: pattern_lf_val pattern_crlf_val)

lemma after_first_sublist: "py_in p s \<Longrightarrow> sublist (after_first p s) s"
  using after_first_decomp[of p s] by (metis append.assoc suffix_imp_sublist suffixI)

lemma not_py_in_sub: "\<not> py_in p s \<Longrightarrow> sublist d s \<Longrightarrow> \<not> py_in p d"
  unfolding py_in_sublist using sublist_order.order.trans by blast

text \<open>The three ways the pattern loop can end, with what the extraction then returns.\<close>

lemma extract_shape:
  obtains (none) "cut_at_pattern design_start_patterns s = s"
      "design_block (split_nl s) = []" "extract_design_section s = s"
  | (block) r h T where "r = cut_at_pattern design_start_patterns s"
      "design_block (split_nl r) = h # T" "is_design_line h" "\<forall>l \<in> set T. \<not> ends_block l"
      "\<forall>l \<in> set (h # T). 10 \<notin> set l"
      "extract_design_section s = strip (join_nl (h # T))"
      "cut_at_pattern design_start_patterns (strip (join_nl (h # T))) = strip (join_nl (h # T))"
      "py_in pattern_lf s \<or> py_in pattern_crlf s \<Longrightarrow> h = lit ''## Design'' \<or> h = lit ''## Design'' @ [13]"
      "\<not> py_in pattern_lf s \<Longrightarrow> \<not> py_in pattern_crlf s \<Longrightarrow> r = s"
proof -
  define r where "r = cut_at_pattern design_start_patterns s"
  define B where "B = design_block (split_nl r)"
  define d where "d = strip (join_nl B)"
  have ex: "extract_design_section s = (if d \<noteq> [] then d else r)"
    by (simp add: extract_design_section_unfold r_def B_def d_def Let_def)
  have r1: "py_in pattern_lf s \<Longrightarrow> r = pattern_lf @ after_first pattern_lf s"
    and r3: "\<not> py_in pattern_lf s \<Longrightarrow> py_in pattern_crlf s \<Longrightarrow> r = pattern_crlf @ after_first pattern_crlf s"
    and r0: "\<not> py_in pattern_lf s \<Longrightarrow> \<not> py_in pattern_crlf s \<Longrightarrow> r = s"
    by (simp_all add: r_def cut_at_pattern_cases)
  have B1: "py_in pattern_lf s \<Longrightarrow> \<exists>T. B = lit ''## Design'' # T"
    using r1 by (simp add: B_def split_cut_lf design_block_Cons_design is_design_header)
  have B3: "\<not> py_in pattern_lf s \<Longrightarrow> py_in pattern_crlf s \<Longrightarrow> \<exists>T. B = (lit ''## Design'' @ [13]) # T"
    using r3 by (simp add: B_def split_cut_crlf design_block_Cons_design is_design_header_cr)
  show thesis
  proof (cases "B = []")
    case True
    then have "\<not> py_in pattern_lf s" "\<not> py_in pattern_crlf s" using B1 B3 by auto
    then have "r = s" using r0 by simp
    moreover have "d = []" using True by (simp add: d_def strip_def lstrip_def rstrip_def)
    ultimately show ?thesis using none True ex by (simp add: r_def B_def)
  next
    case False
    then obtain A h T C where dec: "split_nl r = A @ (h # T) @ C" "B = h # T" "is_design_line h"
      "\<forall>l \<in> set T. \<not> ends_block l"
      unfolding B_def by (rule design_block_decomp) blast
    have nl: "\<forall>l \<in> set (h # T). 10 \<notin> set l"
    proof
      fix l assume "l \<in> set (h # T)"
      then have "l \<in> set (split_nl r)" unfolding dec(1) by auto
      then show "10 \<notin> set l" by (rule split_nl_no_nl)
    qed
    have dne: "d \<noteq> []"
      using design_line_nonspace[OF dec(3)] unfolding d_def dec(2)
      by (auto simp: strip_Nil_iff all_space_join)
    have sub: "sublist d r"
      unfolding d_def B_def using design_block_sublist False B_def by blast
    have hh: "py_in pattern_lf s \<or> py_in pattern_crlf s \<Longrightarrow> h = lit ''## Design'' \<or> h = lit ''## Design'' @ [13]"
      using B1 B3 dec(2) by auto
    have cut: "cut_at_pattern design_start_patterns d = d"
    proof (cases "py_in pattern_lf s")
      case True
      then have "h = lit ''## Design''" using B1 dec(2) by auto
      then have "d = lit ''## Design'' \<or> (\<exists>Z. d = pattern_lf @ Z)"
        unfolding d_def dec(2) using strip_join_header by simp
      then show ?thesis using cut_header cut_pattern_lf_prefix by auto
    next
      case n1: False
      show ?thesis
      proof (cases "py_in pattern_crlf s")
        case True
        then have "h = lit ''## Design'' @ [13]" using B3 n1 dec(2) by auto
        then have c: "d = lit ''## Design'' \<or> (\<exists>Z. d = pattern_crlf @ Z)"
          unfolding d_def dec(2) using strip_join_header_cr by simp
        have "\<not> py_in pattern_lf (after_first pattern_crlf s)"
          using n1 after_first_sublist[OF True] not_py_in_sub by blast
        then have "\<not> py_in pattern_lf r" using r3[OF n1 True] by (simp add: py_in_lf_crlf)
        then have "\<not> py_in pattern_lf d" using sub not_py_in_sub by blast
        then show ?thesis using c cut_header cut_pattern_crlf_prefix by auto
      next
        case False
        then have "r = s" using r0 n1 by simp
        then have "\<not> py_in pattern_lf d" "\<not> py_in pattern_crlf d" using n1 False sub not_py_in_sub by blast+
        then show ?thesis by (simp add: cut_at_pattern_cases)
      qed
    qed
    show ?thesis
      using block[of r h T] dec nl dne ex cut hh r0 unfolding d_def r_def B_def by auto
  qed
qed

section \<open>Extraction and validation\<close>

lemmas extract_eval_defs = extract_design_section_def design_start_patterns_def
  is_design_line_def is_heading_line_def has_meta_def meta_sections_def
  extract_design_section_simple_def

lemma find_design_block:
  "find is_design_line ls = Some l \<Longrightarrow> \<exists>T. design_block ls = l # T"
  by (induction ls) (auto simp: design_block_def split: if_splits)









lemma header3_nonempty: "lit ''### Design'' \<noteq> []" "\<not> isspace (last (lit ''### Design''))"
  "10 \<notin> set (lit ''### Design'')"
  by (simp_all add: header3_lit)



section \<open>The claims\<close>

subsection \<open>C1: when the validator succeeds, and the missing-header failure\<close>

text \<open>
  Claim C1.  \<open>validate_response_format\<close> returns success exactly when the response, with
  only its leading whitespace stripped, begins with \<open>## Design\<close>, and then the message is
  empty.  When \<open>## Design\<close> stands at the start of no line, the result is failure with the
  missing-header message: the agent name followed by a fixed text, with no line number and
  no listing.  The start of a line is taken with leading whitespace aside, as in the first
  half of the claim and as the code does when it trims each line; the lines are the pieces
  of the response between line feeds.
\<close>

theorem validate_response_format_header:
  "(fst (validate_response_format response agent_name)
      \<longleftrightarrow> startswith (lstrip response) (lit ''## Design''))
   \<and> (fst (validate_response_format response agent_name)
      \<longrightarrow> snd (validate_response_format response agent_name) = [])
   \<and> ((\<forall>line \<in> set (split_nl response). \<not> startswith (lstrip line) (lit ''## Design''))
      \<longrightarrow> validate_response_format response agent_name
            = (False, agent_name @ lit '' response missing '## Design' section header.''))"
proof (intro conjI impI)
  show "fst (validate_response_format response agent_name)
      \<longleftrightarrow> startswith (lstrip response) (lit ''## Design'')"
    using validate_ok[of response agent_name] validate_not_ok[of response agent_name] by auto
next
  assume "fst (validate_response_format response agent_name)"
  then have "startswith (lstrip response) (lit ''## Design'')"
    using validate_not_ok[of response agent_name] by blast
  then show "snd (validate_response_format response agent_name) = []"
    by (simp add: validate_ok)
next
  assume "\<forall>line \<in> set (split_nl response). \<not> startswith (lstrip line) (lit ''## Design'')"
  then have "\<forall>l \<in> set (split_nl response). \<not> startswith (strip l) (lit ''## Design'')"
    using startswith_strip_lstrip[OF header_nonempty(1,2)] by simp
  then show "validate_response_format response agent_name
            = (False, agent_name @ lit '' response missing '## Design' section header.'')"
    using validate_missing by (simp add: missing_header_message_def)
qed

text \<open>A valid response with leading blank space, and a response that mentions the header
  only inside a line.\<close>

theorem validate_response_format_header_witness:
  "fst (validate_response_format (lit ''  \<newline>## Design\<newline>\<newline># API'') (lit ''Agent A''))
   \<and> snd (validate_response_format (lit ''  \<newline>## Design\<newline>\<newline># API'') (lit ''Agent A'')) = []
   \<and> validate_response_format (lit ''Here is my plan.\<newline>See the ## Design below.'') (lit ''Agent A'')
       = (False, lit ''Agent A response missing '## Design' section header.'')"
proof -
  have a: "startswith (lstrip (lit ''  \<newline>## Design\<newline>\<newline># API'')) (lit ''## Design'')"
    by (simp add: eval_defs)
  have b: "\<forall>line \<in> set (split_nl (lit ''Here is my plan.\<newline>See the ## Design below.'')).
             \<not> startswith (lstrip line) (lit ''## Design'')"
    by (simp add: eval_defs)
  show ?thesis
    using validate_response_format_header[of "lit ''  \<newline>## Design\<newline>\<newline># API''" "lit ''Agent A''"]
      validate_response_format_header[of "lit ''Here is my plan.\<newline>See the ## Design below.''" "lit ''Agent A''"]
      a b
    by (simp add: lit_def)
qed

subsection \<open>C2: the preamble failure\<close>

text \<open>
  Claim C2, as amended.  Let the response not begin with \<open>## Design\<close> once its leading
  whitespace is stripped, and let line \<open>k\<close> (counting from 0) be the first line that, trimmed,
  begins with \<open>## Design\<close>.  Then validation fails with the preamble message: the agent
  name, the 1-based line number \<open>k + 1\<close>, and the first five at most of the lines before
  line \<open>k\<close> that are not blank, each as its 1-based number and its first 80 characters.
  The claim as stated asks this of every \<open>prefix + '## Design' + suffix\<close> with a
  non-whitespace prefix; where the header stands inside a line the result is the
  missing-header message instead.
\<close>

theorem validate_response_format_preamble:
  assumes "\<not> startswith (lstrip response) (lit ''## Design'')"
    and "k < length (split_nl response)"
    and "startswith (strip (split_nl response ! k)) (lit ''## Design'')"
    and "\<forall>j<k. \<not> startswith (strip (split_nl response ! j)) (lit ''## Design'')"
  shows "validate_response_format response agent_name =
     (False,
      agent_name
      @ lit '' violated format requirements.\<newline>\<newline>Forbidden preamble detected before '## Design' (found at line ''
      @ str_nat (k + 1) @ lit ''):\<newline>''
      @ join_nl (take 5
          (map (\<lambda>(i, line). lit ''  Line '' @ str_nat (i + 1) @ lit '': '' @ take 80 line)
            (filter (\<lambda>(i, line). strip line \<noteq> []) (enumerate 0 (take k (split_nl response))))))
      @ lit ''\<newline>\<newline>The response will be automatically cleaned.'')"
proof -
  let ?hdr = "\<lambda>l. startswith (strip l) (lit ''## Design'')"
  let ?ls = "split_nl response"
  have tw: "takeWhile (\<lambda>l. \<not> ?hdr l) ?ls = take k ?ls"
    using assms(2,3,4) by (intro takeWhile_eq_take_P_nth) auto
  have ex: "\<exists>l \<in> set ?ls. ?hdr l"
    using assms(2,3) nth_mem by blast
  have len: "length (take k ?ls) = k" using assms(2) by simp
  have "scan_lines 0 ?ls [] =
      (Some k, map (\<lambda>(j, l). preamble_entry j l)
                 (filter (\<lambda>(j, l). strip l \<noteq> []) (enumerate 0 (take k ?ls))))"
    unfolding scan_lines_spec Let_def tw using ex len by simp
  then show ?thesis
    using assms(1)
    by (simp add: validate_response_format_def Let_def preamble_message_def preamble_entry_def)
qed

text \<open>A conversational opener, a blank line, then the header, indented, on line 3.\<close>

theorem validate_response_format_preamble_witness:
  "validate_response_format (lit ''Thank you for the feedback.\<newline>\<newline>  ## Design\<newline>\<newline># API'') (lit ''Agent A'')
   = (False, lit ''Agent A violated format requirements.\<newline>\<newline>Forbidden preamble detected before '## Design' (found at line 3):\<newline>  Line 1: Thank you for the feedback.\<newline>\<newline>The response will be automatically cleaned.'')"
proof -
  let ?r = "lit ''Thank you for the feedback.\<newline>\<newline>  ## Design\<newline>\<newline># API''"
  have sp: "split_nl ?r = [lit ''Thank you for the feedback.'', [], lit ''  ## Design'', [], lit ''# API'']"
    by (simp add: lit_def split_nl.simps)
  have a: "\<not> startswith (lstrip ?r) (lit ''## Design'')" by (simp add: eval_defs)
  have b: "2 < length (split_nl ?r)" unfolding sp by simp
  have c: "startswith (strip (split_nl ?r ! 2)) (lit ''## Design'')"
    unfolding sp by (simp add: eval_defs)
  have d: "\<forall>j<2. \<not> startswith (strip (split_nl ?r ! j)) (lit ''## Design'')"
    unfolding sp by (simp add: eval_defs less_Suc_eq numeral_2_eq_2)
  have e: "join_nl (take 5
          (map (\<lambda>(i, line). lit ''  Line '' @ str_nat (i + 1) @ lit '': '' @ take 80 line)
            (filter (\<lambda>(i, line). strip line \<noteq> []) (enumerate 0 (take 2 (split_nl ?r))))))
         = lit ''  Line 1: Thank you for the feedback.''"
    unfolding sp by (simp add: eval_defs enumerate_simps numeral_2_eq_2)
  have n: "str_nat (2 + 1) = lit ''3''" by (simp add: str_nat.simps lit_def)
  show ?thesis
    unfolding validate_response_format_preamble[OF a b c d, of "lit ''Agent A''"] e n
    by (simp add: lit_def)
qed

text \<open>The header inside a line, after a prefix that is not whitespace: the message is the
  missing-header one, with no line number and no listing.  And a response that begins with
  the header and repeats it later is \<open>prefix + '## Design' + suffix\<close> with the non-whitespace
  prefix \<open>## Design\<close>, line feed, \<open>Notes\<close>, line feed; it is valid.\<close>

theorem validate_response_format_preamble_counterexample:
  "validate_response_format (lit ''Intro ## Design\<newline># API'') (lit ''Agent A'')
     = (False, lit ''Agent A response missing '## Design' section header.'')
   \<and> validate_response_format (lit ''## Design\<newline>Notes\<newline>## Design'') (lit ''Agent A'') = (True, [])"
  by (simp add: eval_defs)

subsection \<open>C3: what the extraction keeps\<close>




subsection \<open>C4: the convergence table\<close>

text \<open>
  Claim C4.  \<open>check_convergence\<close> depends on the two convergence signals only, and on
  the nine pairs of signals it yields \<open>CONSENSUS\<close> when both are final
  (\<open>PROPOSING_FINAL\<close> or \<open>ACCEPTING_FINAL\<close>), \<open>CONVERGING\<close> when exactly one is
  \<open>ITERATING\<close>, and \<open>DEBATING\<close> when both are.
\<close>

theorem check_convergence_table:
  "(convergence_signal a \<in> {PROPOSING_FINAL, ACCEPTING_FINAL}
      \<and> convergence_signal b \<in> {PROPOSING_FINAL, ACCEPTING_FINAL}
     \<longrightarrow> check_convergence a b = CONSENSUS)
   \<and> ((convergence_signal a = ITERATING) \<noteq> (convergence_signal b = ITERATING)
     \<longrightarrow> check_convergence a b = CONVERGING)
   \<and> (convergence_signal a = ITERATING \<and> convergence_signal b = ITERATING
     \<longrightarrow> check_convergence a b = DEBATING)
   \<and> (convergence_signal a = convergence_signal a' \<and> convergence_signal b = convergence_signal b'
     \<longrightarrow> check_convergence a b = check_convergence a' b')"
  by (cases "convergence_signal a"; cases "convergence_signal b")
     (simp_all add: check_convergence_def)

text \<open>
  The three pairs exercised by \<open>test_convergence_checking\<close> of \<open>mock_test.py\<close>.
\<close>

theorem check_convergence_table_witness:
  "check_convergence
     \<lparr>content = lit ''Design content'', prompt_for_other = lit ''Review this'',
      convergence_signal = PROPOSING_FINAL, raw_response = lit ''Full response''\<rparr>
     \<lparr>content = lit ''Improved design'', prompt_for_other = lit ''Looks good'',
      convergence_signal = ACCEPTING_FINAL, raw_response = lit ''Full response''\<rparr> = CONSENSUS
   \<and> check_convergence
     \<lparr>content = lit ''Design content'', prompt_for_other = lit ''Review this'',
      convergence_signal = PROPOSING_FINAL, raw_response = lit ''Full response''\<rparr>
     \<lparr>content = lit ''Improved design'', prompt_for_other = lit ''Looks good'',
      convergence_signal = ITERATING, raw_response = lit ''Full response''\<rparr> = CONVERGING
   \<and> check_convergence
     \<lparr>content = lit ''Design content'', prompt_for_other = lit ''Review this'',
      convergence_signal = ITERATING, raw_response = lit ''Full response''\<rparr>
     \<lparr>content = lit ''Improved design'', prompt_for_other = lit ''Looks good'',
      convergence_signal = ITERATING, raw_response = lit ''Full response''\<rparr> = DEBATING"
  using check_convergence_table[of
     "\<lparr>content = lit ''Design content'', prompt_for_other = lit ''Review this'',
      convergence_signal = PROPOSING_FINAL, raw_response = lit ''Full response''\<rparr>"
     "\<lparr>content = lit ''Improved design'', prompt_for_other = lit ''Looks good'',
      convergence_signal = ACCEPTING_FINAL, raw_response = lit ''Full response''\<rparr>"]
    check_convergence_table[of
     "\<lparr>content = lit ''Design content'', prompt_for_other = lit ''Review this'',
      convergence_signal = PROPOSING_FINAL, raw_response = lit ''Full response''\<rparr>"
     "\<lparr>content = lit ''Improved design'', prompt_for_other = lit ''Looks good'',
      convergence_signal = ITERATING, raw_response = lit ''Full response''\<rparr>"]
    check_convergence_table[of
     "\<lparr>content = lit ''Design content'', prompt_for_other = lit ''Review this'',
      convergence_signal = ITERATING, raw_response = lit ''Full response''\<rparr>"
     "\<lparr>content = lit ''Improved design'', prompt_for_other = lit ''Looks good'',
      convergence_signal = ITERATING, raw_response = lit ''Full response''\<rparr>"]
  by simp

subsection \<open>C5: extraction repairs a preamble\<close>




subsection \<open>C6: extraction is idempotent\<close>

text \<open>
  Claim C6.  Extracting twice gives what extracting once gives, for every string.
\<close>

theorem extract_design_section_idempotent:
  "extract_design_section (extract_design_section s) = extract_design_section s"
proof (cases s rule: extract_shape)
  case none
  then show ?thesis by simp
next
  case (block r h T)
  then show ?thesis using extract_fixed[of h T] by simp
qed

subsection \<open>C7: responses without a Design heading\<close>

text \<open>
  Claim C7, as amended.  When no line of the response, trimmed, begins with \<open>## Design\<close>
  or \<open>### Design\<close>, and the response nowhere holds \<open>## Design\<close> directly followed by a
  line break (a line feed, or a carriage return and a line feed), the extraction returns the
  response unchanged.  For every non-empty response the result is not empty.  The claim as
  stated has the first half without the condition on line breaks.
\<close>

theorem extract_without_heading:
  "((\<forall>line \<in> set (split_nl response). \<not> is_design_line line)
      \<and> \<not> py_in (lit ''## Design\<newline>'') response
      \<and> \<not> py_in (lit ''## Design'' @ [13, 10]) response
     \<longrightarrow> extract_design_section response = response)
   \<and> (response \<noteq> [] \<longrightarrow> extract_design_section response \<noteq> [])"
proof (cases response rule: extract_shape)
  case none
  then show ?thesis by simp
next
  case (block r h T)
  have ne: "extract_design_section response \<noteq> []"
    unfolding block(6) using design_line_nonspace[OF block(3)]
    by (auto simp: strip_Nil_iff all_space_join)
  have "\<not> ((\<forall>line \<in> set (split_nl response). \<not> is_design_line line)
      \<and> \<not> py_in pattern_lf response \<and> \<not> py_in pattern_crlf response)"
  proof
    assume a: "(\<forall>line \<in> set (split_nl response). \<not> is_design_line line)
      \<and> \<not> py_in pattern_lf response \<and> \<not> py_in pattern_crlf response"
    then have "r = response" using block(9) by simp
    then have "design_block (split_nl response) \<noteq> []" using block(2) by simp
    then show False using a by (simp add: design_block_Nil_iff)
  qed
  then show ?thesis using ne unfolding pattern_lf_def pattern_crlf_def by blast
qed

text \<open>
  Two lines of notes, no heading.
\<close>

theorem extract_without_heading_witness:
  "split_nl (lit ''Notes only.\<newline>No heading here.'') = [lit ''Notes only.'', lit ''No heading here.'']
   \<and> \<not> is_design_line (lit ''Notes only.'') \<and> \<not> is_design_line (lit ''No heading here.'')
   \<and> \<not> py_in (lit ''## Design\<newline>'') (lit ''Notes only.\<newline>No heading here.'')
   \<and> \<not> py_in (lit ''## Design'' @ [13, 10]) (lit ''Notes only.\<newline>No heading here.'')
   \<and> lit ''Notes only.\<newline>No heading here.'' \<noteq> []
   \<and> extract_design_section (lit ''Notes only.\<newline>No heading here.'') = lit ''Notes only.\<newline>No heading here.''
   \<and> extract_design_section (lit ''Notes only.\<newline>No heading here.'') \<noteq> []"
proof -
  let ?r = "lit ''Notes only.\<newline>No heading here.''"
  have sp: "split_nl ?r = [lit ''Notes only.'', lit ''No heading here.'']"
    by (simp add: lit_def split_nl.simps)
  have l1: "\<not> is_design_line (lit ''Notes only.'')" by (simp add: is_design_line_def eval_defs)
  have l2: "\<not> is_design_line (lit ''No heading here.'')" by (simp add: is_design_line_def eval_defs)
  have a: "\<forall>line \<in> set (split_nl ?r). \<not> is_design_line line" unfolding sp using l1 l2 by simp
  have b: "\<not> py_in (lit ''## Design\<newline>'') ?r" by (simp add: lit_def)
  have c: "\<not> py_in (lit ''## Design'' @ [13, 10]) ?r" by (simp add: lit_def)
  have d: "?r \<noteq> []" by (simp add: lit_def)
  from extract_without_heading[of ?r] a b c d sp l1 l2 show ?thesis by blast
qed

text \<open>
  No line begins a Design heading, yet \<open>## Design\<close> ends the first line: the pattern
  loop finds it and the text before it is dropped.
\<close>

theorem extract_without_heading_counterexample:
  "split_nl (lit ''Intro ## Design\<newline>Body'') = [lit ''Intro ## Design'', lit ''Body'']
   \<and> \<not> is_design_line (lit ''Intro ## Design'') \<and> \<not> is_design_line (lit ''Body'')
   \<and> extract_design_section (lit ''Intro ## Design\<newline>Body'') = lit ''## Design\<newline>Body''
   \<and> extract_design_section (lit ''Intro ## Design\<newline>Body'') \<noteq> lit ''Intro ## Design\<newline>Body''"
  by (simp add: extract_eval_defs eval_defs)

subsection \<open>C8: the level-3 header\<close>

text \<open>
  Claim C8, as amended.  A response whose first non-whitespace content is \<open>### Design\<close>
  is rejected by the validator, and only a response that begins, leading whitespace aside,
  with \<open>## Design\<close> is accepted.  The claim as stated has the level-3 form accepted.
\<close>

theorem validate_rejects_level3_header:
  "(startswith (lstrip response) (lit ''### Design'')
      \<longrightarrow> \<not> fst (validate_response_format response agent_name))
   \<and> (fst (validate_response_format response agent_name)
      \<longrightarrow> startswith (lstrip response) (lit ''## Design''))"
proof (intro conjI impI)
  assume "startswith (lstrip response) (lit ''### Design'')"
  then obtain t where "lstrip response = lit ''### Design'' @ t"
    by (auto simp: startswith_def prefix_def)
  then have "\<not> startswith (lstrip response) (lit ''## Design'')"
    by (simp add: startswith_def header_lit header3_lit)
  then show "\<not> fst (validate_response_format response agent_name)" by (rule validate_not_ok)
next
  assume "fst (validate_response_format response agent_name)"
  then show "startswith (lstrip response) (lit ''## Design'')"
    using validate_not_ok[of response agent_name] by blast
qed

text \<open>
  A blank line and then the level-3 header is rejected; an accepted response begins with
  the level-2 header.
\<close>

theorem validate_rejects_level3_header_witness:
  "startswith (lstrip (lit ''\<newline>### Design\<newline>\<newline># API'')) (lit ''### Design'')
   \<and> \<not> fst (validate_response_format (lit ''\<newline>### Design\<newline>\<newline># API'') (lit ''Agent A''))
   \<and> fst (validate_response_format (lit ''## Design\<newline>\<newline># API'') (lit ''Agent A''))
   \<and> startswith (lstrip (lit ''## Design\<newline>\<newline># API'')) (lit ''## Design'')"
proof -
  have a: "startswith (lstrip (lit ''\<newline>### Design\<newline>\<newline># API'')) (lit ''### Design'')"
    by (simp add: eval_defs)
  have b: "fst (validate_response_format (lit ''## Design\<newline>\<newline># API'') (lit ''Agent A''))"
    by (simp add: eval_defs)
  from validate_rejects_level3_header[of "lit ''\<newline>### Design\<newline>\<newline># API''" "lit ''Agent A''"]
    validate_rejects_level3_header[of "lit ''## Design\<newline>\<newline># API''" "lit ''Agent A''"] a b
  show ?thesis by blast
qed

text \<open>
  The level-3 header as the first line: validation fails, here with the missing-header
  message.
\<close>

theorem validate_rejects_level3_header_counterexample:
  "validate_response_format (lit ''### Design\<newline>\<newline># API'') (lit ''Agent A'')
   = (False, lit ''Agent A response missing '## Design' section header.'')"
  by (simp add: eval_defs)

subsection \<open>C9: the two extractors\<close>




subsection \<open>C10: the header check is a prefix test\<close>

text \<open>
  Claim C10.  Whenever the response, leading whitespace stripped, begins with the nine
  characters \<open>## Design\<close>, validation succeeds with an empty message, whatever follows them
  on the header line.
\<close>

theorem validate_header_prefix:
  assumes "startswith (lstrip response) (lit ''## Design'')"
  shows "validate_response_format response agent_name = (True, [])"
  using assms by (simp add: validate_response_format_def)

text \<open>
  The header lines \<open>## Designs\<close> and \<open>## Design Document\<close>.
\<close>

theorem validate_header_prefix_witness:
  "startswith (lstrip (lit ''## Designs\<newline>text'')) (lit ''## Design'')
   \<and> validate_response_format (lit ''## Designs\<newline>text'') (lit ''Agent A'') = (True, [])
   \<and> startswith (lstrip (lit ''  ## Design Document'')) (lit ''## Design'')
   \<and> validate_response_format (lit ''  ## Design Document'') (lit ''Agent B'') = (True, [])"
proof -
  have a: "startswith (lstrip (lit ''## Designs\<newline>text'')) (lit ''## Design'')"
    by (simp add: eval_defs)
  have b: "startswith (lstrip (lit ''  ## Design Document'')) (lit ''## Design'')"
    by (simp add: eval_defs)
  from validate_header_prefix[OF a] validate_header_prefix[OF b] a b show ?thesis by blast
qed

end
